theory Spec2Isabelle
  imports Complex_Main "HOL-Library.Sublist"
begin

section \<open>The event emitter of salve-dom (build/dist/lib/event_emitter.js)\<close>

text \<open>
  The class \<^verbatim>\<open>EventEmitter\<close> keeps two collections of listeners: the array
  \<^verbatim>\<open>_generalListeners\<close> of the listeners on \<^verbatim>\<open>"*"\<close>, and the object
  \<^verbatim>\<open>_eventListeners\<close> (created with \<^verbatim>\<open>Object.create(null)\<close>, so every string is
  an ordinary key) that maps an event name to the array of its listeners.

  Listeners are JavaScript functions. \<^verbatim>\<open>lastIndexOf\<close> compares them with strict
  equality, that is by identity, so a listener is modelled by its identity: \<open>User f\<close> is
  the \<open>f\<close>-th function written by the client, \<open>Once k\<close> is the \<open>k\<close>-th closure
  \<^verbatim>\<open>me\<close> that \<^verbatim>\<open>addOneTimeEventListener\<close> has created.
\<close>

datatype fnref = User nat | Once nat

text \<open>
  A listener on an event name is called with \<^verbatim>\<open>(ev)\<close>, a listener on \<^verbatim>\<open>"*"\<close> with
  \<^verbatim>\<open>(eventName, ev)\<close>. The loops of \<^verbatim>\<open>_emit\<close> call with \<^verbatim>\<open>this\<close> undefined, the
  one-time closure calls the wrapped listener with \<^verbatim>\<open>this\<close> the emitter. A listener
  returns \<^verbatim>\<open>boolean | void\<close>; \<^verbatim>\<open>_emit\<close> tests the result with \<^verbatim>\<open>=== false\<close>.
\<close>

datatype 'p arglist = Args1 'p | Args2 string 'p

datatype this = ThisUndefined | ThisEmitter

datatype ret = RetFalse | RetTrue | RetVoid

record emitter =
  eventListeners :: "string \<rightharpoonup> fnref list"
  generalListeners :: "fnref list"
  trace :: bool

definition constructor :: emitter where
  "constructor = \<lparr>eventListeners = Map.empty, generalListeners = [], trace = False\<rparr>"

subsection \<open>Registering and removing listeners\<close>

definition addEventListener :: "emitter \<Rightarrow> string \<Rightarrow> fnref \<Rightarrow> emitter" where
  "addEventListener e eventName listener =
     (if eventName = ''*'' then e\<lparr>generalListeners := generalListeners e @ [listener]\<rparr>
      else
        (let listeners = (case eventListeners e eventName of None \<Rightarrow> [] | Some ls \<Rightarrow> ls)
         in e\<lparr>eventListeners := (eventListeners e)(eventName \<mapsto> listeners @ [listener])\<rparr>))"

text \<open>
  \<^verbatim>\<open>Array.prototype.lastIndexOf\<close>: the greatest index that holds the element, or \<open>-1\<close>.
  \<^verbatim>\<open>splice(index, 1)\<close> removes the element at that index.
\<close>

fun lastIndexOf :: "'a list \<Rightarrow> 'a \<Rightarrow> int" where
  "lastIndexOf [] x = -1"
| "lastIndexOf (y # ys) x =
     (let r = lastIndexOf ys x
      in if r \<noteq> -1 then r + 1 else if y = x then 0 else -1)"

definition splice1 :: "'a list \<Rightarrow> int \<Rightarrow> 'a list" where
  "splice1 xs index = take (nat index) xs @ drop (nat index + 1) xs"

definition removeEventListener :: "emitter \<Rightarrow> string \<Rightarrow> fnref \<Rightarrow> emitter" where
  "removeEventListener e eventName listener =
     (case (if eventName = ''*'' then Some (generalListeners e) else eventListeners e eventName) of
        None \<Rightarrow> e
      | Some listeners \<Rightarrow>
          (let index = lastIndexOf listeners listener
           in if index \<noteq> -1 then
                (if eventName = ''*'' then e\<lparr>generalListeners := splice1 listeners index\<rparr>
                 else e\<lparr>eventListeners := (eventListeners e)(eventName \<mapsto> splice1 listeners index)\<rparr>)
              else e))"

definition removeAllListeners :: "emitter \<Rightarrow> string \<Rightarrow> emitter" where
  "removeAllListeners e eventName =
     (if eventName = ''*'' then e\<lparr>generalListeners := []\<rparr>
      else e\<lparr>eventListeners := (eventListeners e)(eventName \<mapsto> [])\<rparr>)"

text \<open>
  The listeners that \<^verbatim>\<open>_emit\<close> finds for a name: an absent entry of
  \<^verbatim>\<open>_eventListeners\<close> and an empty array are treated alike by both of its blocks.
\<close>

definition namedListeners :: "emitter \<Rightarrow> string \<Rightarrow> fnref list" where
  "namedListeners e eventName = (case eventListeners e eventName of None \<Rightarrow> [] | Some ls \<Rightarrow> ls)"

definition listenersOf :: "emitter \<Rightarrow> string \<Rightarrow> fnref list" where
  "listenersOf e eventName =
     (if eventName = ''*'' then generalListeners e else namedListeners e eventName)"

subsection \<open>The world a listener runs in\<close>

text \<open>
  Besides the emitter, the state holds the one-time closures created so far (closure
  \<open>Once k\<close> captured the pair \<open>closures ! k\<close> of event name and wrapped listener),
  what \<^verbatim>\<open>console.log\<close> has printed, and the state \<open>ustate\<close> of the client, which
  only client code reads and writes.
\<close>

record ('p, 's) world =
  em :: emitter
  closures :: "(string \<times> fnref) list"
  console :: "(string \<times> 'p) list"
  ustate :: 's

definition addOneTimeEventListener ::
  "('p, 's) world \<Rightarrow> string \<Rightarrow> fnref \<Rightarrow> fnref \<times> ('p, 's) world" where
  "addOneTimeEventListener w eventName listener =
     (let me = Once (length (closures w))
      in (me, w\<lparr>closures := closures w @ [(eventName, listener)],
                em := addEventListener (em w) eventName me\<rparr>))"

text \<open>
  The body of a client function is a script: it reads and writes the client's own
  state, calls the public methods of the emitter, may emit an event itself, and
  returns a value or throws. \<^verbatim>\<open>addOneTimeEventListener\<close> is the only method that
  returns something, the closure, which the rest of the script may use.
\<close>

datatype ('p, 's) cmd =
    Done ret
  | Throw
  | AddEventListener string fnref "('p, 's) cmd"
  | AddOneTimeEventListener string fnref "fnref \<Rightarrow> ('p, 's) cmd"
  | RemoveEventListener string fnref "('p, 's) cmd"
  | RemoveAllListeners string "('p, 's) cmd"
  | Emit string 'p "('p, 's) cmd"
  | Read "'s \<Rightarrow> ('p, 's) cmd"
  | Write 's "('p, 's) cmd"

type_synonym ('p, 's) prog = "nat \<Rightarrow> this \<Rightarrow> 'p arglist \<Rightarrow> ('p, 's) cmd"

primrec run ::
  "(('p, 's) world \<Rightarrow> string \<Rightarrow> 'p \<Rightarrow> ('p, 's) world option) \<Rightarrow> ('p, 's) cmd \<Rightarrow>
   ('p, 's) world \<Rightarrow> (('p, 's) world \<times> ret) option" where
  "run E (Done r) w = Some (w, r)"
| "run E Throw w = None"
| "run E (AddEventListener eventName l k) w =
     run E k (w\<lparr>em := addEventListener (em w) eventName l\<rparr>)"
| "run E (AddOneTimeEventListener eventName l k) w =
     (case addOneTimeEventListener w eventName l of (me, w') \<Rightarrow> run E (k me) w')"
| "run E (RemoveEventListener eventName l k) w =
     run E k (w\<lparr>em := removeEventListener (em w) eventName l\<rparr>)"
| "run E (RemoveAllListeners eventName k) w =
     run E k (w\<lparr>em := removeAllListeners (em w) eventName\<rparr>)"
| "run E (Emit eventName ev k) w =
     (case E w eventName ev of None \<Rightarrow> None | Some w' \<Rightarrow> run E k w')"
| "run E (Read k) w = run E (k (ustate w)) w"
| "run E (Write s k) w = run E k (w\<lparr>ustate := s\<rparr>)"

subsection \<open>Emitting an event\<close>

text \<open>
  One call of a listener made by a loop of \<^verbatim>\<open>_emit\<close>: the listener, the arguments
  and what it returned. \<^verbatim>\<open>_emit\<close> itself returns nothing; the model returns, with the
  new state, the list of the calls that this dispatch made, in order. These are the
  calls made by the two loops of this execution of \<^verbatim>\<open>_emit\<close>; what a called listener
  calls in turn (a one-time closure its wrapped listener, a client function another
  \<^verbatim>\<open>_emit\<close>) is not in the list.
\<close>

datatype 'p invocation = Invocation (inv_fn: fnref) (inv_args: "'p arglist") (inv_ret: ret)

text \<open>
  The loop \<^verbatim>\<open>for (const listener of listeners)\<close> over the copy of a listener array.
  The copy made by \<^verbatim>\<open>listeners.slice()\<close> is the list given to the loop: a value that
  no call changes, whatever the calls do to the arrays of the emitter. \<open>C\<close> calls a
  function. The boolean of the result says whether the loop left \<^verbatim>\<open>_emit\<close> through
  \<^verbatim>\<open>return\<close>.
\<close>

fun dispatch ::
  "(fnref \<Rightarrow> this \<Rightarrow> 'p arglist \<Rightarrow> ('p, 's) world \<Rightarrow> (('p, 's) world \<times> ret) option) \<Rightarrow>
   fnref list \<Rightarrow> 'p arglist \<Rightarrow> ('p, 's) world \<Rightarrow>
   (('p, 's) world \<times> bool \<times> 'p invocation list) option" where
  "dispatch C [] a w = Some (w, False, [])"
| "dispatch C (listener # rest) a w =
     (case C listener ThisUndefined a w of
        None \<Rightarrow> None
      | Some (w', r) \<Rightarrow>
          if r = RetFalse then Some (w', True, [Invocation listener a r])
          else (case dispatch C rest a w' of
                  None \<Rightarrow> None
                | Some (w'', halted, calls) \<Rightarrow>
                    Some (w'', halted, Invocation listener a r # calls)))"

definition trace_log :: "('p, 's) world \<Rightarrow> string \<Rightarrow> 'p \<Rightarrow> ('p, 's) world" where
  "trace_log w eventName ev =
     (if trace (em w) then w\<lparr>console := console w @ [(eventName, ev)]\<rparr> else w)"

text \<open>The first block of \<^verbatim>\<open>_emit\<close>: the listeners on \<^verbatim>\<open>"*"\<close>.\<close>

definition emit_general ::
  "(fnref \<Rightarrow> this \<Rightarrow> 'p arglist \<Rightarrow> ('p, 's) world \<Rightarrow> (('p, 's) world \<times> ret) option) \<Rightarrow>
   ('p, 's) world \<Rightarrow> string \<Rightarrow> 'p \<Rightarrow> (('p, 's) world \<times> bool \<times> 'p invocation list) option" where
  "emit_general C w eventName ev =
     (let listeners = generalListeners (em w)
      in if length listeners > 0 then dispatch C listeners (Args2 eventName ev) w
         else Some (w, False, []))"

text \<open>The second block: the listeners on the event name, read when the first block is over.\<close>

definition emit_named ::
  "(fnref \<Rightarrow> this \<Rightarrow> 'p arglist \<Rightarrow> ('p, 's) world \<Rightarrow> (('p, 's) world \<times> ret) option) \<Rightarrow>
   ('p, 's) world \<Rightarrow> string \<Rightarrow> 'p \<Rightarrow> (('p, 's) world \<times> bool \<times> 'p invocation list) option" where
  "emit_named C w eventName ev =
     (case eventListeners (em w) eventName of
        None \<Rightarrow> Some (w, False, [])
      | Some listeners \<Rightarrow>
          if length listeners > 0 then dispatch C listeners (Args1 ev) w
          else Some (w, False, []))"

definition emit_with ::
  "(fnref \<Rightarrow> this \<Rightarrow> 'p arglist \<Rightarrow> ('p, 's) world \<Rightarrow> (('p, 's) world \<times> ret) option) \<Rightarrow>
   ('p, 's) world \<Rightarrow> string \<Rightarrow> 'p \<Rightarrow> (('p, 's) world \<times> 'p invocation list) option" where
  "emit_with C w eventName ev =
     (case emit_general C (trace_log w eventName ev) eventName ev of
        None \<Rightarrow> None
      | Some (w1, halted, calls1) \<Rightarrow>
          if halted then Some (w1, calls1)
          else (case emit_named C w1 eventName ev of
                  None \<Rightarrow> None
                | Some (w2, halted2, calls2) \<Rightarrow> Some (w2, calls1 @ calls2)))"

text \<open>
  Calling a function. The recursion of the program (a listener that emits, whose
  listeners emit, ...) need not end, so the depth of the call stack is bounded by the
  first argument; \<open>None\<close> says that the call does not return normally: the stack is
  exhausted, the client code throws, or the callee is not a function.

  The closure \<^verbatim>\<open>me\<close> of \<^verbatim>\<open>addOneTimeEventListener\<close> removes itself from the event it
  was created for and returns what the wrapped listener returns, called with the same
  arguments and with \<^verbatim>\<open>this\<close> the emitter.
\<close>

primrec invoke ::
  "nat \<Rightarrow> ('p, 's) prog \<Rightarrow> fnref \<Rightarrow> this \<Rightarrow> 'p arglist \<Rightarrow> ('p, 's) world \<Rightarrow>
   (('p, 's) world \<times> ret) option" where
  "invoke 0 P f t a w = None"
| "invoke (Suc n) P f t a w =
     (case f of
        User u \<Rightarrow>
          run (\<lambda>w' eventName ev. map_option fst (emit_with (invoke n P) w' eventName ev))
            (P u t a) w
      | Once k \<Rightarrow>
          if k < length (closures w) then
            (case closures w ! k of
               (eventName, listener) \<Rightarrow>
                 invoke n P listener ThisEmitter a
                   (w\<lparr>em := removeEventListener (em w) eventName (Once k)\<rparr>))
          else None)"

definition emit ::
  "nat \<Rightarrow> ('p, 's) prog \<Rightarrow> ('p, 's) world \<Rightarrow> string \<Rightarrow> 'p \<Rightarrow>
   (('p, 's) world \<times> 'p invocation list) option" where
  "emit n P w eventName ev = emit_with (invoke n P) w eventName ev"

subsection \<open>Programs whose dispatches certainly return\<close>

text \<open>
  A script is plain when it neither emits, nor throws, nor creates a one-time
  listener, and registers client functions only.
\<close>

definition is_client :: "fnref \<Rightarrow> bool" where
  "is_client l = (case l of User u \<Rightarrow> True | Once k \<Rightarrow> False)"

primrec plain :: "('p, 's) cmd \<Rightarrow> bool" where
  "plain (Done r) = True"
| "plain Throw = False"
| "plain (AddEventListener eventName l k) = (is_client l \<and> plain k)"
| "plain (AddOneTimeEventListener eventName l k) = False"
| "plain (RemoveEventListener eventName l k) = plain k"
| "plain (RemoveAllListeners eventName k) = plain k"
| "plain (Emit eventName ev k) = False"
| "plain (Read k) = (\<forall>s. plain (k s))"
| "plain (Write s k) = plain k"

definition clients_only :: "emitter \<Rightarrow> bool" where
  "clients_only e =
     ((\<forall>l \<in> set (generalListeners e). is_client l) \<and>
      (\<forall>eventName. \<forall>l \<in> set (namedListeners e eventName). is_client l))"

section \<open>The declarations of the validator's events (the main module, in build/dist/lib/event_emitter.d.ts)\<close>

text \<open>
  \<^verbatim>\<open>export declare enum WorkingState\<close>, a numeric enumeration: the members and the
  number each one stands for.
\<close>

datatype WorkingState = INCOMPLETE | WORKING | INVALID | VALID

fun WorkingState_value :: "WorkingState \<Rightarrow> int" where
  "WorkingState_value INCOMPLETE = 1"
| "WorkingState_value WORKING = 2"
| "WorkingState_value INVALID = 3"
| "WorkingState_value VALID = 4"

text \<open>
  The payload interfaces. \<^verbatim>\<open>ValidationError\<close> (of salve) and the DOM's \<^verbatim>\<open>Node\<close> are
  types of other libraries. An optional property is an \<open>option\<close>; \<^verbatim>\<open>node\<close>, declared
  \<^verbatim>\<open>node?: Node | null\<close>, may be absent, null or a node.
\<close>

typedecl ValidationError

typedecl Node

record ErrorData =
  error :: ValidationError
  node :: "Node option option"
  index :: "real option"

record ResetData =
  at :: real

record WorkingStateData =
  state :: WorkingState
  partDone :: real

text \<open>
  \<^verbatim>\<open>export interface Events\<close> maps each event name to the type of the data that the
  subscribers get: an event of the validator is one of its entries with a value of
  the entry's type.
\<close>

datatype Events =
    Ev_error ErrorData
  | Ev_reset_errors ResetData
  | Ev_state_update WorkingStateData
  | Ev_possible_due_to_wildcard_change Node

fun event_name :: "Events \<Rightarrow> string" where
  "event_name (Ev_error d) = ''error''"
| "event_name (Ev_reset_errors d) = ''reset-errors''"
| "event_name (Ev_state_update d) = ''state-update''"
| "event_name (Ev_possible_due_to_wildcard_change d) = ''possible-due-to-wildcard-change''"

text \<open>What a dispatch that returned has called, and the state it has left.\<close>

definition called :: "(('p, 's) world \<times> 'p invocation list) option \<Rightarrow> fnref list option" where
  "called r = map_option (map inv_fn \<circ> snd) r"


definition final_ustate :: "(('p, 's) world \<times> 'p invocation list) option \<Rightarrow> 's option" where
  "final_ustate r = map_option (ustate \<circ> fst) r"

definition final_listeners ::
  "(('p, 's) world \<times> 'p invocation list) option \<Rightarrow> string \<Rightarrow> fnref list option" where
  "final_listeners r eventName = map_option ((\<lambda>w. listenersOf (em w) eventName) \<circ> fst) r"

section \<open>Example emitters and client programs\<close>

text \<open>The payloads of the examples are numbers; the client's state is a counter.\<close>

definition world0 :: "(nat, nat) world" where
  "world0 = \<lparr>em = constructor, closures = [], console = [], ustate = 0\<rparr>"

text \<open>
  An emitter on which \<open>User 1\<close> listens twice and \<open>User 2\<close> once to \<^verbatim>\<open>"foo"\<close>, and
  \<open>User 3\<close> to \<^verbatim>\<open>"bar"\<close>.
\<close>

definition emitter_foo_bar :: emitter where
  "emitter_foo_bar =
     addEventListener (addEventListener (addEventListener (addEventListener constructor
       ''foo'' (User 1)) ''foo'' (User 2)) ''foo'' (User 1)) ''bar'' (User 3)"

text \<open>A listener that counts its calls in the client's state and returns nothing.\<close>

definition count_call :: "(nat, nat) cmd" where
  "count_call = Read (\<lambda>s. Write (Suc s) (Done RetVoid))"

text \<open>
  A client whose function 0 adds function 1 as a listener on \<^verbatim>\<open>"foo"\<close> and function 2
  as a listener on \<^verbatim>\<open>"*"\<close>; it listens on \<^verbatim>\<open>"*"\<close> in the first emitter and on
  \<^verbatim>\<open>"foo"\<close> in the second.
\<close>

fun prog_adder :: "(nat, nat) prog" where
  "prog_adder 0 t a =
     AddEventListener ''foo'' (User 1) (AddEventListener ''*'' (User 2) (Done RetVoid))"
| "prog_adder (Suc f) t a = count_call"

definition world_adder_general :: "(nat, nat) world" where
  "world_adder_general = world0\<lparr>em := addEventListener constructor ''*'' (User 0)\<rparr>"

definition world_adder_named :: "(nat, nat) world" where
  "world_adder_named = world0\<lparr>em := addEventListener constructor ''foo'' (User 0)\<rparr>"

text \<open>
  A client whose function 0 removes itself from \<^verbatim>\<open>"foo"\<close> and counts the call. It is
  registered twice in the first emitter, once (before function 1) in the second.
\<close>

fun prog_remover :: "(nat, nat) prog" where
  "prog_remover 0 t a = RemoveEventListener ''foo'' (User 0) count_call"
| "prog_remover (Suc f) t a = count_call"

definition world_remover_twice :: "(nat, nat) world" where
  "world_remover_twice =
     world0\<lparr>em := addEventListener (addEventListener constructor ''foo'' (User 0)) ''foo'' (User 0)\<rparr>"

definition world_remover_once :: "(nat, nat) world" where
  "world_remover_once =
     world0\<lparr>em := addEventListener (addEventListener constructor ''foo'' (User 0)) ''foo'' (User 1)\<rparr>"

text \<open>
  A client whose function 0 removes itself from \<^verbatim>\<open>"foo"\<close> and then emits \<^verbatim>\<open>"foo"\<close>
  again, registered before a one-time listener that wraps function 1, the only one
  that counts its calls.
\<close>

fun prog_reemit :: "(nat, nat) prog" where
  "prog_reemit 0 t a = RemoveEventListener ''foo'' (User 0) (Emit ''foo'' 7 (Done RetVoid))"
| "prog_reemit (Suc 0) t a = count_call"
| "prog_reemit (Suc (Suc f)) t a = Done RetVoid"

definition world_reemit :: "(nat, nat) world" where
  "world_reemit =
     snd (addOneTimeEventListener
            (world0\<lparr>em := addEventListener constructor ''foo'' (User 0)\<rparr>) ''foo'' (User 1))"

text \<open>
  A client whose function 0 emits \<^verbatim>\<open>"b"\<close> and whose function 1 returns \<^verbatim>\<open>false\<close>.
  In the first emitter function 2 listens on \<^verbatim>\<open>"*"\<close>, functions 0 and 3 on
  \<^verbatim>\<open>"a"\<close>, functions 1 and 4 on \<^verbatim>\<open>"b"\<close>. In the second, function 1 is wrapped in a
  one-time listener on \<^verbatim>\<open>"b"\<close>, followed by function 4.
\<close>

fun prog_halt :: "(nat, nat) prog" where
  "prog_halt 0 t a = Emit ''b'' 0 (Done RetVoid)"
| "prog_halt (Suc 0) t a = Done RetFalse"
| "prog_halt (Suc (Suc f)) t a = count_call"


definition world_once_halt :: "(nat, nat) world" where
  "world_once_halt =
     (case addOneTimeEventListener world0 ''b'' (User 1) of
        (me, w) \<Rightarrow> w\<lparr>em := addEventListener (em w) ''b'' (User 4)\<rparr>)"

section \<open>Removing listeners\<close>

lemma lastIndexOf_notin: "x \<notin> set xs \<Longrightarrow> lastIndexOf xs x = -1"
  by (induction xs) (auto simp: Let_def)

lemma lastIndexOf_last: "x \<notin> set zs \<Longrightarrow> lastIndexOf (ys @ x # zs) x = int (length ys)"
proof (induction ys)
  case Nil
  then show ?case by (simp add: lastIndexOf_notin)
next
  case (Cons y ys)
  then show ?case by (simp add: Let_def)
qed

lemma splice1_at: "splice1 (ys @ x # zs) (int (length ys)) = ys @ zs"
  by (simp add: splice1_def)

lemma listenersOf_remove_in:
  assumes "listenersOf e E = ys @ L # zs" and "L \<notin> set zs"
  shows "listenersOf (removeEventListener e E L) E = ys @ zs"
  using assms
  by (auto simp: listenersOf_def namedListeners_def removeEventListener_def Let_def
      lastIndexOf_last splice1_at split: option.splits if_splits)

lemma remove_notin:
  assumes "L \<notin> set (listenersOf e E)"
  shows "removeEventListener e E L = e"
  using assms
  by (auto simp: listenersOf_def namedListeners_def removeEventListener_def Let_def
      lastIndexOf_notin split: option.splits if_splits)

lemma remove_frame:
  "(E \<noteq> ''*'' \<longrightarrow> generalListeners (removeEventListener e E L) = generalListeners e) \<and>
   (E = ''*'' \<longrightarrow> eventListeners (removeEventListener e E L) = eventListeners e) \<and>
   (\<forall>E'. E' \<noteq> E \<longrightarrow> eventListeners (removeEventListener e E L) E' = eventListeners e E') \<and>
   trace (removeEventListener e E L) = trace e"
  by (auto simp: removeEventListener_def Let_def split: option.splits)

lemma listenersOf_remove_other:
  "E' \<noteq> E \<Longrightarrow> listenersOf (removeEventListener e E L) E' = listenersOf e E'"
  using remove_frame[of E e L]
  by (auto simp: listenersOf_def namedListeners_def)

lemma listenersOf_add: "listenersOf (addEventListener e E L) E = listenersOf e E @ [L]"
  by (auto simp: listenersOf_def namedListeners_def addEventListener_def Let_def
      split: option.splits)

text \<open>
  C8. \<^verbatim>\<open>removeEventListener(E, L)\<close> removes one registration of \<open>L\<close> from the list
  of \<open>E\<close> (the list of the \<^verbatim>\<open>"*"\<close> listeners when \<open>E\<close> is \<^verbatim>\<open>"*"\<close>): the last
  occurrence, which is the one added most recently since \<^verbatim>\<open>addEventListener\<close>
  appends, so that removing a listener just added gives the list back. The lists of
  the other names and the trace flag stay as they are, and the emitter is unchanged
  when \<open>L\<close> is not in the list of \<open>E\<close>, a name without an entry included.
\<close>

theorem removeEventListener_last_occurrence:
  "(L \<in> set (listenersOf e E) \<longrightarrow>
      (\<exists>ys zs. listenersOf e E = ys @ L # zs \<and> L \<notin> set zs \<and>
               listenersOf (removeEventListener e E L) E = ys @ zs)) \<and>
   listenersOf (removeEventListener (addEventListener e E L) E L) E = listenersOf e E \<and>
   (\<forall>E'. E' \<noteq> E \<longrightarrow>
      listenersOf (removeEventListener e E L) E' = listenersOf e E' \<and>
      eventListeners (removeEventListener e E L) E' = eventListeners e E') \<and>
   (E = ''*'' \<longrightarrow> eventListeners (removeEventListener e E L) = eventListeners e) \<and>
   trace (removeEventListener e E L) = trace e \<and>
   (L \<notin> set (listenersOf e E) \<longrightarrow> removeEventListener e E L = e)"
proof -
  have "\<exists>ys zs. listenersOf e E = ys @ L # zs \<and> L \<notin> set zs \<and>
               listenersOf (removeEventListener e E L) E = ys @ zs"
    if "L \<in> set (listenersOf e E)"
  proof -
    from that obtain ys zs where s: "listenersOf e E = ys @ L # zs" "L \<notin> set zs"
      by (meson split_list_last)
    then show ?thesis using listenersOf_remove_in[OF s] by blast
  qed
  moreover have "listenersOf (removeEventListener (addEventListener e E L) E L) E = listenersOf e E"
    using listenersOf_remove_in[of "addEventListener e E L" E "listenersOf e E" L "[]"]
    by (simp add: listenersOf_add)
  ultimately show ?thesis
    using remove_frame[of E e L] listenersOf_remove_other[of _ E e L] remove_notin[of L e E]
    by blast
qed

theorem removeEventListener_last_occurrence_witness:
  "User 1 \<in> set (listenersOf emitter_foo_bar ''foo'') \<and>
   listenersOf emitter_foo_bar ''foo'' = [User 1, User 2, User 1] \<and>
   listenersOf (removeEventListener emitter_foo_bar ''foo'' (User 1)) ''foo'' = [User 1, User 2] \<and>
   ''bar'' \<noteq> ''foo'' \<and>
   listenersOf (removeEventListener emitter_foo_bar ''foo'' (User 1)) ''bar'' = [User 3] \<and>
   User 3 \<notin> set (listenersOf emitter_foo_bar ''foo'') \<and>
   removeEventListener emitter_foo_bar ''foo'' (User 3) = emitter_foo_bar"
proof -
  have foo: "listenersOf emitter_foo_bar ''foo'' = [User 1, User 2, User 1]" by code_simp
  have bar: "listenersOf emitter_foo_bar ''bar'' = [User 3]" by code_simp
  have names: "''bar'' \<noteq> ''foo''" by simp
  have mem: "User 1 \<in> set (listenersOf emitter_foo_bar ''foo'')"
    and nmem: "User 3 \<notin> set (listenersOf emitter_foo_bar ''foo'')"
    by (simp_all add: foo)
  note t1 = removeEventListener_last_occurrence [of "User 1" emitter_foo_bar "''foo''"]
  note t3 = removeEventListener_last_occurrence [of "User 3" emitter_foo_bar "''foo''"]
  from t1 [THEN conjunct1] mem obtain ys zs where
    s: "listenersOf emitter_foo_bar ''foo'' = ys @ User 1 # zs" "User 1 \<notin> set zs"
      "listenersOf (removeEventListener emitter_foo_bar ''foo'' (User 1)) ''foo'' = ys @ zs"
    by (elim impE exE conjE)
  from s(1,2) have "ys = [User 1, User 2] \<and> zs = []"
    unfolding foo by (auto simp: append_eq_Cons_conv Cons_eq_append_conv)
  with s(3) have r: "listenersOf (removeEventListener emitter_foo_bar ''foo'' (User 1)) ''foo''
      = [User 1, User 2]"
    by simp
  from t1 [THEN conjunct2, THEN conjunct2, THEN conjunct1] names
  have o: "listenersOf (removeEventListener emitter_foo_bar ''foo'' (User 1)) ''bar'' = [User 3]"
    unfolding bar [symmetric] by (elim allE impE conjE)
  from nmem have u: "removeEventListener emitter_foo_bar ''foo'' (User 3) = emitter_foo_bar"
    by (rule t3 [THEN conjunct2, THEN conjunct2, THEN conjunct2, THEN conjunct2, THEN conjunct2,
          THEN mp])
  from mem foo r names o nmem u show ?thesis by (intro conjI)
qed

text \<open>
  C9. \<^verbatim>\<open>removeAllListeners(E)\<close> empties the list of \<open>E\<close> only: the list of every
  other name is unchanged; the \<^verbatim>\<open>"*"\<close> listeners are unchanged unless \<open>E\<close> is
  \<^verbatim>\<open>"*"\<close>, and then only they are removed and every name-keyed list is unchanged.
\<close>

theorem removeAllListeners_frame:
  "listenersOf (removeAllListeners e E) E = [] \<and>
   (\<forall>E'. E' \<noteq> E \<longrightarrow>
      listenersOf (removeAllListeners e E) E' = listenersOf e E' \<and>
      eventListeners (removeAllListeners e E) E' = eventListeners e E') \<and>
   (E \<noteq> ''*'' \<longrightarrow> generalListeners (removeAllListeners e E) = generalListeners e) \<and>
   (E = ''*'' \<longrightarrow> generalListeners (removeAllListeners e E) = [] \<and>
      eventListeners (removeAllListeners e E) = eventListeners e) \<and>
   trace (removeAllListeners e E) = trace e"
  by (auto simp: removeAllListeners_def listenersOf_def namedListeners_def)

theorem removeAllListeners_frame_witness:
  "''foo'' \<noteq> ''*'' \<and> ''bar'' \<noteq> ''foo'' \<and>
   listenersOf emitter_foo_bar ''foo'' = [User 1, User 2, User 1] \<and>
   listenersOf (removeAllListeners emitter_foo_bar ''foo'') ''foo'' = [] \<and>
   listenersOf (removeAllListeners emitter_foo_bar ''foo'') ''bar'' = [User 3] \<and>
   generalListeners (removeAllListeners emitter_foo_bar ''foo'') = generalListeners emitter_foo_bar \<and>
   eventListeners (removeAllListeners emitter_foo_bar ''*'') = eventListeners emitter_foo_bar"
proof -
  have names: "''foo'' \<noteq> ''*''" "''bar'' \<noteq> ''foo''" by simp_all
  have foo: "listenersOf emitter_foo_bar ''foo'' = [User 1, User 2, User 1]" by code_simp
  have bar: "listenersOf emitter_foo_bar ''bar'' = [User 3]" by code_simp
  show ?thesis
    using names foo bar
      removeAllListeners_frame [of emitter_foo_bar "''foo''"]
      removeAllListeners_frame [of emitter_foo_bar "''*''"]
    by simp
qed

section \<open>The loops of a dispatch\<close>

text \<open>
  What a loop of \<^verbatim>\<open>_emit\<close> has called when it returns: listeners from the front of
  the copied list, all with the same arguments; only the last call can have returned
  \<^verbatim>\<open>false\<close>, and it has if and only if the loop left \<^verbatim>\<open>_emit\<close>.
\<close>

lemma dispatch_calls:
  assumes "dispatch C ls a w = Some (w', halted, calls)"
  shows "prefix (map inv_fn calls) ls \<and>
         (\<forall>c \<in> set calls. inv_args c = a) \<and>
         (\<forall>c \<in> set (butlast calls). inv_ret c \<noteq> RetFalse) \<and>
         (halted \<longrightarrow> calls \<noteq> [] \<and> inv_ret (last calls) = RetFalse) \<and>
         (\<not> halted \<longrightarrow> map inv_fn calls = ls \<and> (\<forall>c \<in> set calls. inv_ret c \<noteq> RetFalse))"
  using assms
proof (induction ls arbitrary: w w' halted calls)
  case Nil
  then show ?case by simp
next
  case (Cons l ls)
  from Cons.prems obtain w1 r where c: "C l ThisUndefined a w = Some (w1, r)"
    by (auto split: option.splits)
  show ?case
  proof (cases "r = RetFalse")
    case True
    with Cons.prems c show ?thesis by auto
  next
    case False
    with Cons.prems c obtain w2 h2 calls2 where
      d: "dispatch C ls a w1 = Some (w2, h2, calls2)"
      and e: "w' = w2" "halted = h2" "calls = Invocation l a r # calls2"
      by (auto split: option.splits)
    from Cons.IH [OF d] False e show ?thesis by auto
  qed
qed


lemma trace_log_em [simp]: "em (trace_log w eventName ev) = em w"
  by (simp add: trace_log_def)

lemma emit_general_calls:
  assumes "emit_general C w eventName ev = Some (w', halted, calls)"
  shows "prefix (map inv_fn calls) (generalListeners (em w)) \<and>
         (\<forall>c \<in> set calls. inv_args c = Args2 eventName ev) \<and>
         (\<forall>c \<in> set (butlast calls). inv_ret c \<noteq> RetFalse) \<and>
         (halted \<longrightarrow> calls \<noteq> [] \<and> inv_ret (last calls) = RetFalse) \<and>
         (\<not> halted \<longrightarrow> map inv_fn calls = generalListeners (em w) \<and>
            (\<forall>c \<in> set calls. inv_ret c \<noteq> RetFalse)) \<and>
         (generalListeners (em w) = [] \<longrightarrow> w' = w)"
proof (cases "generalListeners (em w) = []")
  case True
  with assms show ?thesis by (simp add: emit_general_def)
next
  case False
  with assms have "dispatch C (generalListeners (em w)) (Args2 eventName ev) w
      = Some (w', halted, calls)"
    by (simp add: emit_general_def)
  from dispatch_calls [OF this] False show ?thesis by simp
qed

lemma emit_named_calls:
  assumes "emit_named C w eventName ev = Some (w', halted, calls)"
  shows "prefix (map inv_fn calls) (namedListeners (em w) eventName) \<and>
         (\<forall>c \<in> set calls. inv_args c = Args1 ev) \<and>
         (\<forall>c \<in> set (butlast calls). inv_ret c \<noteq> RetFalse) \<and>
         (halted \<longrightarrow> calls \<noteq> [] \<and> inv_ret (last calls) = RetFalse) \<and>
         (\<not> halted \<longrightarrow> map inv_fn calls = namedListeners (em w) eventName \<and>
            (\<forall>c \<in> set calls. inv_ret c \<noteq> RetFalse))"
proof (cases "namedListeners (em w) eventName = []")
  case True
  with assms show ?thesis
    by (auto simp: emit_named_def namedListeners_def split: option.splits)
next
  case False
  with assms have "dispatch C (namedListeners (em w) eventName) (Args1 ev) w
      = Some (w', halted, calls)"
    by (auto simp: emit_named_def namedListeners_def split: option.splits)
  from dispatch_calls [OF this] show ?thesis by simp
qed

text \<open>
The two ways in which a dispatch ends.
\<close>

lemma emit_with_cases:
  assumes "emit_with C w eventName ev = Some (w', calls)"
  obtains (halted_general) "emit_general C (trace_log w eventName ev) eventName ev = Some (w', True, calls)"
  | (named) w1 calls1 halted2 calls2 where
      "emit_general C (trace_log w eventName ev) eventName ev = Some (w1, False, calls1)"
      "emit_named C w1 eventName ev = Some (w', halted2, calls2)"
      "calls = calls1 @ calls2"
  using assms
  by (auto simp: emit_with_def split: option.splits if_splits)


lemma prefix_count_list: "prefix xs ys \<Longrightarrow> count_list xs x \<le> count_list ys x"
  by (auto simp: prefix_def)

lemma count_list_notin: "x \<notin> set xs \<Longrightarrow> count_list xs x = 0"
  by (induction xs) auto

lemma prefix_map_notin:
  assumes "prefix (map inv_fn calls) ls" and "l \<notin> set ls"
  shows "l \<notin> inv_fn ` set calls"
proof -
  from assms(1) have "set (map inv_fn calls) \<subseteq> set ls" by (rule set_mono_prefix)
  with assms(2) show ?thesis by auto
qed


text \<open>
Reading the projections of a result.
\<close>

lemma called_Some: "r = Some (w, calls) \<Longrightarrow> called r = Some cs \<Longrightarrow> map inv_fn calls = cs"
  by (simp add: called_def)



lemma final_listeners_Some:
  "r = Some (w, calls) \<Longrightarrow> final_listeners r E = Some ls \<Longrightarrow> listenersOf (em w) E = ls"
  by (simp add: final_listeners_def)

lemma called_obtain:
  assumes "called r = Some cs"
  obtains w calls where "r = Some (w, calls)" "map inv_fn calls = cs"
  using assms by (cases r) (auto simp: called_def)

subsection \<open>The bound on the stack\<close>

text \<open>
  A result does not depend on the bound: what a call or a dispatch returns with some
  bound, it returns with every larger one.
\<close>

lemma run_mono:
  assumes "\<And>w eventName ev w'. E w eventName ev = Some w' \<Longrightarrow> E' w eventName ev = Some w'"
  shows "run E c w = Some r \<Longrightarrow> run E' c w = Some r"
proof (induction c arbitrary: w)
  case (Emit eventName ev k)
  from Emit.prems obtain w1 where e: "E w eventName ev = Some w1" and k: "run E k w1 = Some r"
    by (auto split: option.splits)
  from assms [OF e] Emit.IH [OF k] show ?case by simp
next
  case (AddOneTimeEventListener eventName l k)
  then show ?case by (auto split: prod.splits)
qed auto

lemma dispatch_mono:
  assumes "\<And>l t a w r. C l t a w = Some r \<Longrightarrow> C' l t a w = Some r"
  shows "dispatch C ls a w = Some r \<Longrightarrow> dispatch C' ls a w = Some r"
proof (induction ls arbitrary: w r)
  case Nil
  then show ?case by simp
next
  case (Cons l ls)
  from Cons.prems obtain w1 r1 where c: "C l ThisUndefined a w = Some (w1, r1)"
    by (auto split: option.splits)
  note c' = assms [OF c]
  show ?case
  proof (cases "r1 = RetFalse")
    case True
    with Cons.prems c c' show ?thesis by simp
  next
    case False
    with Cons.prems c obtain r2 where d: "dispatch C ls a w1 = Some r2"
      by (auto split: option.splits)
    from Cons.IH [OF d] Cons.prems c c' d False show ?thesis by simp
  qed
qed

lemma emit_with_mono:
  assumes "\<And>l t a w r. C l t a w = Some r \<Longrightarrow> C' l t a w = Some r"
    and "emit_with C w eventName ev = Some r"
  shows "emit_with C' w eventName ev = Some r"
proof -
  have g: "emit_general C w0 eventName ev = Some x \<Longrightarrow> emit_general C' w0 eventName ev = Some x"
    for w0 x
    using dispatch_mono [of C C' _ _ _ x, OF assms(1)]
    by (auto simp: emit_general_def Let_def split: if_splits)
  have n: "emit_named C w0 eventName ev = Some x \<Longrightarrow> emit_named C' w0 eventName ev = Some x"
    for w0 x
    using dispatch_mono [of C C' _ _ _ x, OF assms(1)]
    by (auto simp: emit_named_def split: option.splits if_splits)
  obtain w' calls where r: "r = (w', calls)" by (cases r)
  from assms(2) have "emit_with C w eventName ev = Some (w', calls)" by (simp add: r)
  then show ?thesis
  proof (cases rule: emit_with_cases)
    case halted_general
    from g [OF this] show ?thesis
      by (simp add: emit_with_def r)
  next
    case (named w1 calls1 halted2 calls2)
    from g [OF named(1)] n [OF named(2)] named(3) show ?thesis
      by (simp add: emit_with_def r)
  qed
qed

lemma invoke_Suc_mono: "invoke n P f t a w = Some r \<Longrightarrow> invoke (Suc n) P f t a w = Some r"
proof (induction n arbitrary: f t a w r)
  case 0
  then show ?case by simp
next
  case (Suc n)
  show ?case
  proof (cases f)
    case (User u)
    let ?E = "\<lambda>m w' eventName ev. map_option fst (emit_with (invoke m P) w' eventName ev)"
    have "?E n w0 eventName ev = Some w1 \<Longrightarrow> ?E (Suc n) w0 eventName ev = Some w1"
      for w0 eventName ev w1
      using emit_with_mono [of "invoke n P" "invoke (Suc n) P" w0 eventName ev] Suc.IH
      by auto
    from run_mono [of "?E n" "?E (Suc n)", OF this] Suc.prems User show ?thesis
      by simp
  next
    case (Once k)
    with Suc.prems Suc.IH show ?thesis
      by (auto split: if_splits prod.splits)
  qed
qed

lemma invoke_mono: "invoke n P f t a w = Some r \<Longrightarrow> invoke (n + m) P f t a w = Some r"
  by (induction m) (auto dest: invoke_Suc_mono)

lemma emit_mono:
  assumes "emit n P w eventName ev = Some r"
  shows "emit (n + m) P w eventName ev = Some r"
  using assms emit_with_mono [of "invoke n P" "invoke (n + m) P" w eventName ev r] invoke_mono
  unfolding emit_def by blast

text \<open>
  A dispatch returns, with a stack of depth one, when no client function emits, throws
  or creates a one-time listener and only client functions are registered.
\<close>

lemma set_splice1: "set (splice1 xs i) \<subseteq> set xs"
  by (auto simp: splice1_def dest: in_set_takeD in_set_dropD)

lemma clients_only_remove:
  assumes "clients_only e"
  shows "clients_only (removeEventListener e E L)"
proof -
  have g: "set (generalListeners (removeEventListener e E L)) \<subseteq> set (generalListeners e)"
    using set_splice1 [of "generalListeners e"]
    by (auto simp: removeEventListener_def Let_def split: option.splits)
  have n: "set (namedListeners (removeEventListener e E L) E') \<subseteq> set (namedListeners e E')"
    for E'
  proof (cases "E = ''*''")
    case True
    then show ?thesis by (simp add: removeEventListener_def namedListeners_def Let_def)
  next
    case False
    show ?thesis
    proof (cases "eventListeners e E")
      case None
      with False show ?thesis by (simp add: removeEventListener_def namedListeners_def)
    next
      case (Some ls)
      with False set_splice1 [of ls] show ?thesis
        by (auto simp: removeEventListener_def namedListeners_def Let_def)
    qed
  qed
  from assms g n show ?thesis unfolding clients_only_def by blast
qed

lemma clients_only_removeAll: "clients_only e \<Longrightarrow> clients_only (removeAllListeners e E)"
  by (auto simp: clients_only_def namedListeners_def removeAllListeners_def
      split: option.splits if_splits)

lemma clients_only_add:
  "clients_only e \<Longrightarrow> is_client l \<Longrightarrow> clients_only (addEventListener e E l)"
  by (auto simp: clients_only_def namedListeners_def addEventListener_def Let_def
      split: option.splits if_splits)

lemma run_plain:
  "plain c \<Longrightarrow> clients_only (em w) \<Longrightarrow>
   \<exists>w' r. run E c w = Some (w', r) \<and> clients_only (em w')"
proof (induction c arbitrary: w)
  case (Done r)
  then show ?case by simp
next
  case (AddEventListener eventName l k)
  then show ?case by (simp add: clients_only_add)
next
  case (RemoveEventListener eventName l k)
  then show ?case by (simp add: clients_only_remove)
next
  case (RemoveAllListeners eventName k)
  then show ?case by (simp add: clients_only_removeAll)
next
  case (Read k)
  from Read.prems have "plain (k (ustate w))" by simp
  from Read.IH [OF _ this Read.prems(2)] show ?case by simp
next
  case (Write s k)
  from Write.IH [of "w\<lparr>ustate := s\<rparr>"] Write.prems show ?case by simp
qed simp_all

lemma invoke_plain:
  assumes "\<forall>u t a. plain (P u t a)" and "is_client l" and "clients_only (em w)"
  shows "\<exists>w' r. invoke (Suc n) P l t a w = Some (w', r) \<and> clients_only (em w')"
proof -
  from assms(2) obtain u where l: "l = User u"
    by (cases l) (auto simp: is_client_def)
  from assms(1) have "plain (P u t a)" by simp
  from run_plain [OF this assms(3)] show ?thesis by (simp add: l)
qed

lemma dispatch_plain:
  assumes "\<And>l w. is_client l \<Longrightarrow> clients_only (em w) \<Longrightarrow>
             \<exists>w' r. C l ThisUndefined a w = Some (w', r) \<and> clients_only (em w')"
  shows "clients_only (em w) \<Longrightarrow> \<forall>l \<in> set ls. is_client l \<Longrightarrow>
         \<exists>w' halted calls. dispatch C ls a w = Some (w', halted, calls) \<and> clients_only (em w')"
proof (induction ls arbitrary: w)
  case Nil
  then show ?case by auto
next
  case (Cons l ls)
  from Cons.prems(2) have "is_client l" by simp
  from assms [OF this Cons.prems(1)] obtain w1 r where
    c: "C l ThisUndefined a w = Some (w1, r)" and i: "clients_only (em w1)"
    by blast
  show ?case
  proof (cases "r = RetFalse")
    case True
    with c i show ?thesis by auto
  next
    case False
    from Cons.IH [OF i] Cons.prems(2) obtain w2 h2 calls2 where
      "dispatch C ls a w1 = Some (w2, h2, calls2)" "clients_only (em w2)"
      by auto
    with c False show ?thesis by auto
  qed
qed

lemma emit_plain_returns:
  assumes "\<forall>u t a. plain (P u t a)" and "clients_only (em w)"
  shows "\<exists>w' calls. emit (Suc n) P w eventName ev = Some (w', calls)"
proof -
  let ?w = "trace_log w eventName ev"
  let ?C = "invoke (Suc n) P"
  from assms(2) have c0: "clients_only (em ?w)" by simp
  then have g: "\<forall>l \<in> set (generalListeners (em ?w)). is_client l"
    by (simp add: clients_only_def)
  have "\<exists>w1 h1 calls1. emit_general ?C ?w eventName ev = Some (w1, h1, calls1) \<and>
      clients_only (em w1)"
  proof (cases "generalListeners (em ?w) = []")
    case True
    with c0 show ?thesis by (auto simp: emit_general_def)
  next
    case False
    with dispatch_plain [of ?C "Args2 eventName ev", OF invoke_plain [OF assms(1)] c0 g] show ?thesis
      by (simp add: emit_general_def)
  qed
  then obtain w1 h1 calls1 where
    e1: "emit_general ?C ?w eventName ev = Some (w1, h1, calls1)"
    and c1: "clients_only (em w1)"
    by blast
  from c1 have n: "\<forall>l \<in> set (namedListeners (em w1) eventName). is_client l"
    by (simp add: clients_only_def)
  have "\<exists>w2 h2 calls2. emit_named ?C w1 eventName ev = Some (w2, h2, calls2)"
  proof (cases "namedListeners (em w1) eventName = []")
    case True
    then show ?thesis by (auto simp: emit_named_def namedListeners_def split: option.splits)
  next
    case False
    with dispatch_plain [of ?C "Args1 ev", OF invoke_plain [OF assms(1)] c1 n] show ?thesis
      by (auto simp: emit_named_def namedListeners_def split: option.splits)
  qed
  then obtain w2 h2 calls2 where
    e2: "emit_named ?C w1 eventName ev = Some (w2, h2, calls2)"
    by blast
  from e1 e2 show ?thesis
    by (cases h1) (simp_all add: emit_def emit_with_def)
qed

text \<open>
  The closures of the one-time listeners are never changed: what closure \<open>Once k\<close>
  captured when it was created is what it holds in every later state.
\<close>

lemma run_closures:
  assumes "\<And>w eventName ev w'. E w eventName ev = Some w' \<Longrightarrow> prefix (closures w) (closures w')"
  shows "run E c w = Some (w', r) \<Longrightarrow> prefix (closures w) (closures w')"
proof (induction c arbitrary: w)
  case (AddOneTimeEventListener eventName l k)
  let ?w1 = "snd (addOneTimeEventListener w eventName l)"
  let ?me = "fst (addOneTimeEventListener w eventName l)"
  from AddOneTimeEventListener.prems have "run E (k ?me) ?w1 = Some (w', r)"
    by (simp add: case_prod_beta)
  from AddOneTimeEventListener.IH [OF _ this]
  have "prefix (closures ?w1) (closures w')" by simp
  moreover have "prefix (closures w) (closures ?w1)"
    by (simp add: addOneTimeEventListener_def Let_def)
  ultimately show ?case by (rule prefix_order.trans [rotated])
next
  case (Emit eventName ev k)
  from Emit.prems obtain w1 where e: "E w eventName ev = Some w1" and k: "run E k w1 = Some (w', r)"
    by (auto split: option.splits)
  from assms [OF e] Emit.IH [OF k] show ?case by (rule prefix_order.trans)
next
  case (Read k)
  from Read.prems have "run E (k (ustate w)) w = Some (w', r)" by simp
  from Read.IH [OF _ this] show ?case by simp
next
  case (AddEventListener eventName l k)
  from AddEventListener.IH [of "w\<lparr>em := addEventListener (em w) eventName l\<rparr>"]
    AddEventListener.prems show ?case by simp
next
  case (RemoveEventListener eventName l k)
  from RemoveEventListener.IH [of "w\<lparr>em := removeEventListener (em w) eventName l\<rparr>"]
    RemoveEventListener.prems show ?case by simp
next
  case (RemoveAllListeners eventName k)
  from RemoveAllListeners.IH [of "w\<lparr>em := removeAllListeners (em w) eventName\<rparr>"]
    RemoveAllListeners.prems show ?case by simp
next
  case (Write s k)
  from Write.IH [of "w\<lparr>ustate := s\<rparr>"] Write.prems show ?case by simp
qed simp_all

lemma dispatch_closures:
  assumes "\<And>l t a w w' r. C l t a w = Some (w', r) \<Longrightarrow> prefix (closures w) (closures w')"
  shows "dispatch C ls a w = Some (w', halted, calls) \<Longrightarrow> prefix (closures w) (closures w')"
proof (induction ls arbitrary: w halted calls)
  case Nil
  then show ?case by simp
next
  case (Cons l ls)
  from Cons.prems obtain w1 r where c: "C l ThisUndefined a w = Some (w1, r)"
    by (auto split: option.splits)
  note p = assms [OF c]
  show ?case
  proof (cases "r = RetFalse")
    case True
    with Cons.prems c p show ?thesis by simp
  next
    case False
    with Cons.prems c obtain h2 calls2 where "dispatch C ls a w1 = Some (w', h2, calls2)"
      by (auto split: option.splits)
    from p Cons.IH [OF this] show ?thesis by (rule prefix_order.trans)
  qed
qed

lemma emit_with_closures:
  assumes "\<And>l t a w w' r. C l t a w = Some (w', r) \<Longrightarrow> prefix (closures w) (closures w')"
    and "emit_with C w eventName ev = Some (w', calls)"
  shows "prefix (closures w) (closures w')"
proof -
  have t: "closures (trace_log w eventName ev) = closures w" by (simp add: trace_log_def)
  have g: "emit_general C w0 eventName ev = Some (w1, h, cs) \<Longrightarrow>
      prefix (closures w0) (closures w1)" for w0 w1 h cs
    using dispatch_closures [of C, OF assms(1)]
    by (auto simp: emit_general_def Let_def split: if_splits)
  have n: "emit_named C w0 eventName ev = Some (w1, h, cs) \<Longrightarrow>
      prefix (closures w0) (closures w1)" for w0 w1 h cs
    using dispatch_closures [of C, OF assms(1)]
    by (auto simp: emit_named_def split: option.splits if_splits)
  from assms(2) show ?thesis
  proof (cases rule: emit_with_cases)
    case halted_general
    from g [OF this] t show ?thesis by simp
  next
    case (named w1 calls1 halted2 calls2)
    from g [OF named(1)] n [OF named(2)] t show ?thesis
      by (metis prefix_order.trans)
  qed
qed

lemma invoke_closures:
  "invoke n P f t a w = Some (w', r) \<Longrightarrow> prefix (closures w) (closures w')"
proof (induction n arbitrary: f t a w w' r)
  case 0
  then show ?case by simp
next
  case (Suc n)
  show ?case
  proof (cases f)
    case (User u)
    let ?E = "\<lambda>w' eventName ev. map_option fst (emit_with (invoke n P) w' eventName ev)"
    have "?E w0 eventName ev = Some w1 \<Longrightarrow> prefix (closures w0) (closures w1)"
      for w0 eventName ev w1
      using emit_with_closures [of "invoke n P" w0 eventName ev w1] Suc.IH by auto
    from run_closures [of ?E, OF this] Suc.prems User show ?thesis by simp
  next
    case (Once k)
    with Suc.prems obtain eventName listener where
      "invoke n P listener ThisEmitter a
         (w\<lparr>em := removeEventListener (em w) eventName (Once k)\<rparr>) = Some (w', r)"
      by (auto split: if_splits prod.splits)
    from Suc.IH [OF this] show ?thesis by simp
  qed
qed

lemma emit_closures:
  assumes "emit n P w eventName ev = Some (w', calls)" and "k < length (closures w)"
  shows "k < length (closures w') \<and> closures w' ! k = closures w ! k"
proof -
  from assms(1) have "prefix (closures w) (closures w')"
    unfolding emit_def by (rule emit_with_closures [rotated]) (rule invoke_closures)
  with assms(2) show ?thesis
    by (auto simp: prefix_def nth_append)
qed

subsection \<open>The listeners on "*"\<close>



subsection \<open>Halting a dispatch\<close>



subsection \<open>Listeners added during a dispatch\<close>

text \<open>
  C1, as amended. In a dispatch that returns, the listeners called with
  \<^verbatim>\<open>(eventName, ev)\<close> are an initial segment of the \<^verbatim>\<open>"*"\<close> list as it was when the
  dispatch began, and the listeners called with \<^verbatim>\<open>(ev)\<close> are an initial segment of
  the event's list as it was when the calls of the \<^verbatim>\<open>"*"\<close> listeners were over (which
  is the list at the beginning when there is no \<^verbatim>\<open>"*"\<close> listener). So a listener
  added to \<^verbatim>\<open>"*"\<close> during the dispatch, or added to the event's name by a listener on
  that name, does not receive the current event.
\<close>

theorem emit_calls_from_copies:
  assumes "emit n P w eventName ev = Some (w', calls)"
  shows "\<exists>w1 halted calls1 calls2.
           emit_general (invoke n P) (trace_log w eventName ev) eventName ev
             = Some (w1, halted, calls1) \<and>
           calls = calls1 @ calls2 \<and>
           prefix (map inv_fn calls1) (generalListeners (em w)) \<and>
           (\<forall>c \<in> set calls1. inv_args c = Args2 eventName ev) \<and>
           prefix (map inv_fn calls2) (namedListeners (em w1) eventName) \<and>
           (\<forall>c \<in> set calls2. inv_args c = Args1 ev) \<and>
           (generalListeners (em w) = [] \<longrightarrow> em w1 = em w)"
proof -
  from assms have "emit_with (invoke n P) w eventName ev = Some (w', calls)"
    by (simp add: emit_def)
  then show ?thesis
  proof (cases rule: emit_with_cases)
    case halted_general
    from emit_general_calls [OF this]
    have "prefix (map inv_fn calls) (generalListeners (em w))"
      "\<forall>c \<in> set calls. inv_args c = Args2 eventName ev"
      "generalListeners (em w) = [] \<longrightarrow> em w' = em w"
      by simp_all
    with halted_general show ?thesis
      by (intro exI [of _ w'] exI [of _ True] exI [of _ calls] exI [of _ "[]"]) simp
  next
    case (named w1 calls1 halted2 calls2)
    from emit_general_calls [OF named(1)]
    have "prefix (map inv_fn calls1) (generalListeners (em w))"
      "\<forall>c \<in> set calls1. inv_args c = Args2 eventName ev"
      "generalListeners (em w) = [] \<longrightarrow> em w1 = em w"
      by simp_all
    moreover from emit_named_calls [OF named(2)]
    have "prefix (map inv_fn calls2) (namedListeners (em w1) eventName)"
      "\<forall>c \<in> set calls2. inv_args c = Args1 ev"
      by simp_all
    ultimately show ?thesis using named(1,3)
      by (intro exI [of _ w1] exI [of _ False] exI [of _ calls1] exI [of _ calls2]) simp
  qed
qed

theorem emit_calls_from_copies_witness:
  "\<exists>w' calls. emit 1 prog_adder world_adder_named ''foo'' 7 = Some (w', calls) \<and>
     listenersOf (em world_adder_named) ''*'' = [] \<and>
     listenersOf (em world_adder_named) ''foo'' = [User 0] \<and>
     listenersOf (em w') ''*'' = [User 2] \<and>
     listenersOf (em w') ''foo'' = [User 0, User 1] \<and>
     map inv_fn calls = [User 0] \<and>
     User 1 \<notin> inv_fn ` set calls \<and> User 2 \<notin> inv_fn ` set calls"
proof -
  let ?r = "emit 1 prog_adder world_adder_named ''foo'' 7"
  have g: "listenersOf (em world_adder_named) ''*'' = []" by code_simp
  have f: "listenersOf (em world_adder_named) ''foo'' = [User 0]" by code_simp
  have c: "called ?r = Some [User 0]" by code_simp
  have g': "final_listeners ?r ''*'' = Some [User 2]" by code_simp
  have f': "final_listeners ?r ''foo'' = Some [User 0, User 1]" by code_simp
  from c obtain w' calls where e: "?r = Some (w', calls)" and fc: "map inv_fn calls = [User 0]"
    by (rule called_obtain)
  from g f have gl: "generalListeners (em world_adder_named) = []"
    and nl: "namedListeners (em world_adder_named) ''foo'' = [User 0]"
    by (simp_all add: listenersOf_def)
  from emit_calls_from_copies [OF e] obtain w1 halted calls1 calls2 where
    "emit_general (invoke 1 prog_adder) (trace_log world_adder_named ''foo'' 7) ''foo'' 7
       = Some (w1, halted, calls1)"
    and s: "calls = calls1 @ calls2"
    "prefix (map inv_fn calls1) (generalListeners (em world_adder_named))"
    "\<forall>c \<in> set calls1. inv_args c = Args2 ''foo'' 7"
    "prefix (map inv_fn calls2) (namedListeners (em w1) ''foo'')"
    "\<forall>c \<in> set calls2. inv_args c = Args1 7"
    "generalListeners (em world_adder_named) = [] \<longrightarrow> em w1 = em world_adder_named"
    by (elim exE conjE) (rule that)
  from s(6) gl have "em w1 = em world_adder_named" by simp
  with s(4) nl have p2: "prefix (map inv_fn calls2) [User 0]" by simp
  from s(2) gl have "calls1 = []" by simp
  with s(1) p2 have pc: "prefix (map inv_fn calls) [User 0]" by simp
  have "User 1 \<notin> inv_fn ` set calls"
    by (rule prefix_map_notin [OF pc]) simp
  moreover have "User 2 \<notin> inv_fn ` set calls"
    by (rule prefix_map_notin [OF pc]) simp
  ultimately show ?thesis
    using e g f fc final_listeners_Some [OF e g'] final_listeners_Some [OF e f']
    by (intro exI [of _ w'] exI [of _ calls]) simp
qed

text \<open>
  C1 as stated fails: the second block of \<^verbatim>\<open>_emit\<close> reads the event's list after
  the \<^verbatim>\<open>"*"\<close> listeners have run. Function 0, listening on \<^verbatim>\<open>"*"\<close>, adds function 1
  to \<^verbatim>\<open>"foo"\<close> while \<^verbatim>\<open>"foo"\<close> is dispatched, and function 1, registered nowhere when
  the dispatch began, is called in that same dispatch.
\<close>

theorem emit_calls_from_copies_counterexample:
  "User 1 \<notin> set (listenersOf (em world_adder_general) ''foo'') \<and>
   User 1 \<notin> set (listenersOf (em world_adder_general) ''*'') \<and>
   listenersOf (em world_adder_general) ''*'' = [User 0] \<and>
   prog_adder 0 ThisUndefined (Args2 ''foo'' 7) =
     AddEventListener ''foo'' (User 1) (AddEventListener ''*'' (User 2) (Done RetVoid)) \<and>
   called (emit 2 prog_adder world_adder_general ''foo'' 7) = Some [User 0, User 1] \<and>
   final_ustate (emit 2 prog_adder world_adder_general ''foo'' 7) = Some 1"
proof -
  have "User 1 \<notin> set (listenersOf (em world_adder_general) ''foo'')" by code_simp
  moreover have "User 1 \<notin> set (listenersOf (em world_adder_general) ''*'')" by code_simp
  moreover have "listenersOf (em world_adder_general) ''*'' = [User 0]" by code_simp
  moreover have "prog_adder 0 ThisUndefined (Args2 ''foo'' 7) =
     AddEventListener ''foo'' (User 1) (AddEventListener ''*'' (User 2) (Done RetVoid))"
    by simp
  moreover have "called (emit 2 prog_adder world_adder_general ''foo'' 7) = Some [User 0, User 1]"
    by code_simp
  moreover have "final_ustate (emit 2 prog_adder world_adder_general ''foo'' 7) = Some 1"
    by code_simp
  ultimately show ?thesis by (intro conjI)
qed

subsection \<open>Listeners that remove themselves\<close>

text \<open>
  C3, as amended. A dispatch that returns has called a listener \<open>L\<close> at most as
  many times as \<open>L\<close> occurs in the two lists that the dispatch copies (the \<^verbatim>\<open>"*"\<close>
  list at the beginning, the event's list when the \<^verbatim>\<open>"*"\<close> listeners are over). So a
  listener that is not on \<^verbatim>\<open>"*"\<close> and occurs once in the event's list is called at most
  once by that dispatch, whether it removes itself during the call or not.
\<close>

theorem emit_calls_at_most_registrations:
  assumes "emit n P w eventName ev = Some (w', calls)"
  shows "\<exists>w1 halted calls1.
           emit_general (invoke n P) (trace_log w eventName ev) eventName ev
             = Some (w1, halted, calls1) \<and>
           count_list (map inv_fn calls) L \<le>
             count_list (generalListeners (em w)) L + count_list (namedListeners (em w1) eventName) L \<and>
           (L \<notin> set (generalListeners (em w)) \<and>
            count_list (namedListeners (em w1) eventName) L = 1 \<longrightarrow>
              count_list (map inv_fn calls) L \<le> 1)"
proof -
  from assms have "emit_with (invoke n P) w eventName ev = Some (w', calls)"
    by (simp add: emit_def)
  then show ?thesis
  proof (cases rule: emit_with_cases)
    case halted_general
    from emit_general_calls [OF this]
    have "prefix (map inv_fn calls) (generalListeners (em w))" by simp
    from prefix_count_list [OF this, of L]
    have "count_list (map inv_fn calls) L \<le> count_list (generalListeners (em w)) L" .
    with halted_general show ?thesis
      by (intro exI [of _ w'] exI [of _ True] exI [of _ calls]) (auto simp: count_list_notin)
  next
    case (named w1 calls1 halted2 calls2)
    from emit_general_calls [OF named(1)]
    have "prefix (map inv_fn calls1) (generalListeners (em w))" by simp
    from prefix_count_list [OF this, of L]
    have 1: "count_list (map inv_fn calls1) L \<le> count_list (generalListeners (em w)) L" .
    from emit_named_calls [OF named(2)]
    have "prefix (map inv_fn calls2) (namedListeners (em w1) eventName)" by simp
    from prefix_count_list [OF this, of L]
    have 2: "count_list (map inv_fn calls2) L \<le> count_list (namedListeners (em w1) eventName) L" .
    from 1 2 named(1,3) show ?thesis
      by (intro exI [of _ w1] exI [of _ False] exI [of _ calls1]) (auto simp: count_list_notin)
  qed
qed

theorem emit_calls_at_most_registrations_witness:
  "\<exists>w' calls. emit 1 prog_remover world_remover_once ''foo'' 7 = Some (w', calls) \<and>
     prog_remover 0 ThisUndefined (Args1 7) = RemoveEventListener ''foo'' (User 0) count_call \<and>
     listenersOf (em world_remover_once) ''*'' = [] \<and>
     listenersOf (em world_remover_once) ''foo'' = [User 0, User 1] \<and>
     count_list (map inv_fn calls) (User 0) \<le> 1 \<and>
     map inv_fn calls = [User 0, User 1] \<and>
     listenersOf (em w') ''foo'' = [User 1]"
proof -
  let ?r = "emit 1 prog_remover world_remover_once ''foo'' 7"
  let ?g = "emit_general (invoke 1 prog_remover) (trace_log world_remover_once ''foo'' 7) ''foo'' 7"
  have p: "prog_remover 0 ThisUndefined (Args1 7)
      = RemoveEventListener ''foo'' (User 0) count_call"
    by simp
  have g: "listenersOf (em world_remover_once) ''*'' = []" by code_simp
  have f: "listenersOf (em world_remover_once) ''foo'' = [User 0, User 1]" by code_simp
  have c: "called ?r = Some [User 0, User 1]" by code_simp
  have f': "final_listeners ?r ''foo'' = Some [User 1]" by code_simp
  have m: "map_option (\<lambda>(w1, h, cs). namedListeners (em w1) ''foo'') ?g
      = Some [User 0, User 1]"
    by code_simp
  from c obtain w' calls where e: "?r = Some (w', calls)"
    and fc: "map inv_fn calls = [User 0, User 1]"
    by (rule called_obtain)
  from g have gl: "User 0 \<notin> set (generalListeners (em world_remover_once))"
    by (simp add: listenersOf_def)
  from emit_calls_at_most_registrations [OF e, of "User 0"] obtain w1 halted calls1 where
    s: "?g = Some (w1, halted, calls1)"
    "count_list (map inv_fn calls) (User 0) \<le>
       count_list (generalListeners (em world_remover_once)) (User 0) +
       count_list (namedListeners (em w1) ''foo'') (User 0)"
    "User 0 \<notin> set (generalListeners (em world_remover_once)) \<and>
       count_list (namedListeners (em w1) ''foo'') (User 0) = 1 \<longrightarrow>
     count_list (map inv_fn calls) (User 0) \<le> 1"
    by (elim exE conjE) (rule that)
  from m s(1) have "namedListeners (em w1) ''foo'' = [User 0, User 1]" by simp
  then have "count_list (namedListeners (em w1) ''foo'') (User 0) = 1" by simp
  with s(3) gl have "count_list (map inv_fn calls) (User 0) \<le> 1" by simp
  with e p g f fc final_listeners_Some [OF e f'] show ?thesis
    by (intro exI [of _ w'] exI [of _ calls]) simp
qed

text \<open>
  C3 as stated fails for a listener that is registered twice: function 0 removes
  itself from \<^verbatim>\<open>"foo"\<close> during its first call, and the copy of the list still holds
  its second registration, so it is called again in the same dispatch.
\<close>

theorem emit_calls_at_most_registrations_counterexample:
  "listenersOf (em world_remover_twice) ''foo'' = [User 0, User 0] \<and>
   listenersOf (em world_remover_twice) ''*'' = [] \<and>
   prog_remover 0 ThisUndefined (Args1 7) = RemoveEventListener ''foo'' (User 0) count_call \<and>
   called (emit 1 prog_remover world_remover_twice ''foo'' 7) = Some [User 0, User 0] \<and>
   final_ustate (emit 1 prog_remover world_remover_twice ''foo'' 7) = Some 2 \<and>
   final_listeners (emit 1 prog_remover world_remover_twice ''foo'' 7) ''foo'' = Some []"
proof -
  have "listenersOf (em world_remover_twice) ''foo'' = [User 0, User 0]" by code_simp
  moreover have "listenersOf (em world_remover_twice) ''*'' = []" by code_simp
  moreover have "prog_remover 0 ThisUndefined (Args1 7)
      = RemoveEventListener ''foo'' (User 0) count_call"
    by simp
  moreover have "called (emit 1 prog_remover world_remover_twice ''foo'' 7)
      = Some [User 0, User 0]"
    by code_simp
  moreover have "final_ustate (emit 1 prog_remover world_remover_twice ''foo'' 7) = Some 2"
    by code_simp
  moreover have "final_listeners (emit 1 prog_remover world_remover_twice ''foo'' 7) ''foo''
      = Some []"
    by code_simp
  ultimately show ?thesis by (intro conjI)
qed

subsection \<open>One-time listeners\<close>

lemma addOneTimeEventListener_closure:
  assumes "addOneTimeEventListener w0 E L = (me, w)"
  shows "me = Once (length (closures w0)) \<and> length (closures w0) < length (closures w) \<and>
         closures w ! length (closures w0) = (E, L) \<and>
         listenersOf (em w) E = listenersOf (em w0) E @ [me]"
  using assms by (auto simp: addOneTimeEventListener_def Let_def listenersOf_add)

lemma dispatch_halts_at_false:
  assumes "C l ThisUndefined a w = Some (w', RetFalse)"
  shows "dispatch C (l # rest) a w = Some (w', True, [Invocation l a RetFalse])"
  using assms by simp

text \<open>
  C10. The closure that \<^verbatim>\<open>addOneTimeEventListener\<close> installs returns what the wrapped
  listener returns (called with the same arguments, after the closure has removed
  itself). When that is \<^verbatim>\<open>false\<close>, the loop of the dispatch stops after the closure
  and calls none of the listeners behind it, as it does for any listener that returns
  \<^verbatim>\<open>false\<close>.
\<close>

theorem one_time_wrapper_returns_result:
  assumes "k < length (closures w)" and "closures w ! k = (E, L)"
    and "invoke n P L ThisEmitter a (w\<lparr>em := removeEventListener (em w) E (Once k)\<rparr>) = Some (w', r)"
  shows "invoke (Suc n) P (Once k) t a w = Some (w', r) \<and>
         (r = RetFalse \<longrightarrow>
            dispatch (invoke (Suc n) P) (Once k # rest) a w
              = Some (w', True, [Invocation (Once k) a RetFalse])) \<and>
         (\<forall>l w0 w0'. invoke (Suc n) P l ThisUndefined a w0 = Some (w0', RetFalse) \<longrightarrow>
            dispatch (invoke (Suc n) P) (l # rest) a w0
              = Some (w0', True, [Invocation l a RetFalse]))"
proof -
  from assms have i: "invoke (Suc n) P (Once k) t a w = Some (w', r)" for t
    by simp
  have "dispatch (invoke (Suc n) P) (Once k # rest) a w
      = Some (w', True, [Invocation (Once k) a RetFalse])" if "r = RetFalse"
    using i [of ThisUndefined] that by (intro dispatch_halts_at_false) simp
  moreover have "dispatch (invoke (Suc n) P) (l # rest) a w0
      = Some (w0', True, [Invocation l a RetFalse])"
    if "invoke (Suc n) P l ThisUndefined a w0 = Some (w0', RetFalse)" for l w0 w0'
    using that by (rule dispatch_halts_at_false)
  ultimately show ?thesis using i by blast
qed

theorem one_time_wrapper_returns_result_witness:
  "closures world_once_halt = [(''b'', User 1)] \<and>
   listenersOf (em world_once_halt) ''b'' = [Once 0, User 4] \<and>
   prog_halt (Suc 0) ThisEmitter (Args1 5) = Done RetFalse \<and>
   invoke (Suc (Suc 0)) prog_halt (Once 0) ThisUndefined (Args1 5) world_once_halt
     = Some (world_once_halt\<lparr>em := removeEventListener (em world_once_halt) ''b'' (Once 0)\<rparr>,
             RetFalse) \<and>
   dispatch (invoke (Suc (Suc 0)) prog_halt) [Once 0, User 4] (Args1 5) world_once_halt
     = Some (world_once_halt\<lparr>em := removeEventListener (em world_once_halt) ''b'' (Once 0)\<rparr>,
             True, [Invocation (Once 0) (Args1 5) RetFalse]) \<and>
   called (emit 2 prog_halt world_once_halt ''b'' 5) = Some [Once 0] \<and>
   final_listeners (emit 2 prog_halt world_once_halt ''b'' 5) ''b'' = Some [User 4] \<and>
   final_ustate (emit 2 prog_halt world_once_halt ''b'' 5) = Some 0"
proof -
  let ?w = "world_once_halt\<lparr>em := removeEventListener (em world_once_halt) ''b'' (Once 0)\<rparr>"
  have c: "closures world_once_halt = [(''b'', User 1)]" by code_simp
  then have k: "0 < length (closures world_once_halt)"
    and ck: "closures world_once_halt ! 0 = (''b'', User 1)"
    by simp_all
  have l: "listenersOf (em world_once_halt) ''b'' = [Once 0, User 4]" by code_simp
  have p: "prog_halt (Suc 0) ThisEmitter (Args1 5) = Done RetFalse" by simp
  have i: "invoke (Suc 0) prog_halt (User 1) ThisEmitter (Args1 5) ?w = Some (?w, RetFalse)"
    by simp
  have e: "called (emit 2 prog_halt world_once_halt ''b'' 5) = Some [Once 0]" by code_simp
  have f: "final_listeners (emit 2 prog_halt world_once_halt ''b'' 5) ''b'' = Some [User 4]"
    by code_simp
  have u: "final_ustate (emit 2 prog_halt world_once_halt ''b'' 5) = Some 0" by code_simp
  note t = one_time_wrapper_returns_result [OF k ck i, of ThisUndefined "[User 4]"]
  from t have "invoke (Suc (Suc 0)) prog_halt (Once 0) ThisUndefined (Args1 5) world_once_halt
      = Some (?w, RetFalse)"
    by (rule conjunct1)
  moreover from t have "dispatch (invoke (Suc (Suc 0)) prog_halt) [Once 0, User 4] (Args1 5)
      world_once_halt = Some (?w, True, [Invocation (Once 0) (Args1 5) RetFalse])"
    by simp
  ultimately show ?thesis using c l p e f u by (intro conjI)
qed

text \<open>
  C4 fails on the code. Function 0 and then a one-time listener wrapping function 1
  are registered on \<^verbatim>\<open>"foo"\<close>. When \<^verbatim>\<open>"foo"\<close> is emitted, function 0 removes itself and
  emits \<^verbatim>\<open>"foo"\<close> again; the inner dispatch calls the wrapper, which removes itself and
  calls function 1; the outer dispatch then goes on with its copy of the list, which
  still holds the wrapper, and function 1 is called a second time (its counter is 2).
\<close>

theorem one_time_listener_called_twice:
  "listenersOf (em world_reemit) ''foo'' = [User 0, Once 0] \<and>
   closures world_reemit = [(''foo'', User 1)] \<and>
   ustate world_reemit = 0 \<and>
   called (emit 3 prog_reemit world_reemit ''foo'' 7) = Some [User 0, Once 0] \<and>
   final_ustate (emit 3 prog_reemit world_reemit ''foo'' 7) = Some 2 \<and>
   final_listeners (emit 3 prog_reemit world_reemit ''foo'' 7) ''foo'' = Some []"
proof -
  have "listenersOf (em world_reemit) ''foo'' = [User 0, Once 0]" by code_simp
  moreover have "closures world_reemit = [(''foo'', User 1)]" by code_simp
  moreover have "ustate world_reemit = 0" by code_simp
  moreover have "called (emit 3 prog_reemit world_reemit ''foo'' 7) = Some [User 0, Once 0]"
    by code_simp
  moreover have "final_ustate (emit 3 prog_reemit world_reemit ''foo'' 7) = Some 2"
    by code_simp
  moreover have "final_listeners (emit 3 prog_reemit world_reemit ''foo'' 7) ''foo'' = Some []"
    by code_simp
  ultimately show ?thesis by (intro conjI)
qed

section \<open>The declared events and working states\<close>

text \<open>
  C7. The enumeration \<^verbatim>\<open>WorkingState\<close> has the four members \<^verbatim>\<open>INCOMPLETE\<close>,
  \<^verbatim>\<open>WORKING\<close>, \<^verbatim>\<open>INVALID\<close>, \<^verbatim>\<open>VALID\<close> and no other, with the values 1, 2, 3, 4.
\<close>

theorem WorkingState_members:
  "WorkingState_value INCOMPLETE = 1 \<and> WorkingState_value WORKING = 2 \<and>
   WorkingState_value INVALID = 3 \<and> WorkingState_value VALID = 4 \<and>
   (UNIV :: WorkingState set) = {INCOMPLETE, WORKING, INVALID, VALID} \<and>
   card (UNIV :: WorkingState set) = 4"
proof -
  have u: "(UNIV :: WorkingState set) = {INCOMPLETE, WORKING, INVALID, VALID}"
  proof -
    have "x \<in> {INCOMPLETE, WORKING, INVALID, VALID}" for x :: WorkingState
      by (cases x) simp_all
    then show ?thesis by blast
  qed
  have "card {INCOMPLETE, WORKING, INVALID, VALID} = 4" by simp
  with u show ?thesis by simp
qed

text \<open>
  C6. The events that the validator declares have exactly the four names
  \<^verbatim>\<open>error\<close>, \<^verbatim>\<open>reset-errors\<close>, \<^verbatim>\<open>state-update\<close> and
  \<^verbatim>\<open>possible-due-to-wildcard-change\<close>, and the name fixes the type of the payload:
  \<open>ErrorData\<close>, \<open>ResetData\<close>, \<open>WorkingStateData\<close> and \<open>Node\<close>.
\<close>

theorem Events_names_and_payloads:
  "range event_name =
     {''error'', ''reset-errors'', ''state-update'', ''possible-due-to-wildcard-change''} \<and>
   (event_name e = ''error'' \<longleftrightarrow> (\<exists>d :: ErrorData. e = Ev_error d)) \<and>
   (event_name e = ''reset-errors'' \<longleftrightarrow> (\<exists>d :: ResetData. e = Ev_reset_errors d)) \<and>
   (event_name e = ''state-update'' \<longleftrightarrow> (\<exists>d :: WorkingStateData. e = Ev_state_update d)) \<and>
   (event_name e = ''possible-due-to-wildcard-change'' \<longleftrightarrow>
      (\<exists>d :: Node. e = Ev_possible_due_to_wildcard_change d))"
proof -
  have "event_name x \<in>
      {''error'', ''reset-errors'', ''state-update'', ''possible-due-to-wildcard-change''}" for x
    by (cases x) simp_all
  moreover have "''error'' \<in> range event_name"
    using event_name.simps(1) by (metis rangeI)
  moreover have "''reset-errors'' \<in> range event_name"
    using event_name.simps(2) by (metis rangeI)
  moreover have "''state-update'' \<in> range event_name"
    using event_name.simps(3) by (metis rangeI)
  moreover have "''possible-due-to-wildcard-change'' \<in> range event_name"
    using event_name.simps(4) by (metis rangeI)
  ultimately have names: "range event_name =
      {''error'', ''reset-errors'', ''state-update'', ''possible-due-to-wildcard-change''}"
    by blast
  have payloads:
    "(event_name e = ''error'' \<longleftrightarrow> (\<exists>d :: ErrorData. e = Ev_error d)) \<and>
     (event_name e = ''reset-errors'' \<longleftrightarrow> (\<exists>d :: ResetData. e = Ev_reset_errors d)) \<and>
     (event_name e = ''state-update'' \<longleftrightarrow> (\<exists>d :: WorkingStateData. e = Ev_state_update d)) \<and>
     (event_name e = ''possible-due-to-wildcard-change'' \<longleftrightarrow>
        (\<exists>d :: Node. e = Ev_possible_due_to_wildcard_change d))"
    by (cases e) simp_all
  from names payloads show ?thesis by blast
qed

end
